theory Spec2Isabelle
  imports Main "HOL-Library.Sublist"
begin

section \<open>JavaScript strings and the string methods the code calls\<close>

text \<open>
  A JavaScript string is modelled as a \<^typ>\<open>string\<close>: a list of characters standing for
  the code units of the source string. The code only ever distinguishes characters of the
  ASCII range (braces, angle brackets, the ampersand, the dollar sign, the line feed, the
  letters), so every other code unit is just some character.
\<close>

definition LF :: char where
  "LF = CHR 0x0A"

text \<open>
  \<^verbatim>\<open>GetSubstitution\<close> of ECMAScript, for a regular expression without capture groups:
  the replacement template of \<^verbatim>\<open>String.prototype.replace\<close> is copied, but
  \<^verbatim>\<open>$$\<close> yields one dollar sign, \<^verbatim>\<open>$&\<close> the matched text,
  \<^verbatim>\<open>$`\<close> the input before the match and \<^verbatim>\<open>$'\<close> the input behind
  it. With no capture group a dollar sign in front of anything else stays as it is.
\<close>

fun GetSubstitution :: "string \<Rightarrow> string \<Rightarrow> string \<Rightarrow> string \<Rightarrow> string" where
  "GetSubstitution matched pre post [] = []"
| "GetSubstitution matched pre post [c] = [c]"
| "GetSubstitution matched pre post (c # d # r) =
     (if c = CHR ''$'' then
        (if d = CHR ''$'' then CHR ''$'' # GetSubstitution matched pre post r
         else if d = CHR ''&'' then matched @ GetSubstitution matched pre post r
         else if d = CHR 0x60 then pre @ GetSubstitution matched pre post r
         else if d = CHR 0x27 then post @ GetSubstitution matched pre post r
         else c # GetSubstitution matched pre post (d # r))
      else c # GetSubstitution matched pre post (d # r))"

text \<open>
  A regular expression of the fragment this development covers is a list of alternatives,
  each a non-empty literal text; it matches at a position when one of them is a prefix of
  the remaining input, the leftmost alternative first.
\<close>

type_synonym regexp = "string list"

definition match_here :: "regexp \<Rightarrow> string \<Rightarrow> string option" where
  "match_here alts s = find (\<lambda>a. a \<noteq> [] \<and> prefix a s) alts"

text \<open>
  \<^verbatim>\<open>s.replace(regex, template)\<close> with the \<^verbatim>\<open>g\<close> flag: the input is
  scanned from the left, every match is replaced by the substitution of the template, and
  the scan goes on behind the match. \<open>pre\<close> is the part of the input already scanned.
\<close>

function replace_g :: "regexp \<Rightarrow> string \<Rightarrow> string \<Rightarrow> string \<Rightarrow> string" where
  "replace_g alts template pre [] = []"
| "replace_g alts template pre (c # cs) =
     (case match_here alts (c # cs) of
        Some a \<Rightarrow>
          GetSubstitution a pre (drop (length a) (c # cs)) template
            @ replace_g alts template (pre @ a) (drop (length a) (c # cs))
      | None \<Rightarrow> c # replace_g alts template (pre @ [c]) cs)"
  by pat_completeness auto
termination
proof (relation "measure (\<lambda>(alts, template, pre, s). length s)")
  fix alts :: "string list" and template pre :: string and c :: char and cs a :: string
  assume "match_here alts (c # cs) = Some a"
  then have "a \<noteq> []"
    by (auto simp: match_here_def find_Some_iff)
  then show "((alts, template, pre @ a, drop (length a) (c # cs)), (alts, template, pre, c # cs))
      \<in> measure (\<lambda>(alts, template, pre, s). length s)"
    by (cases a) auto
qed auto

definition String_replace :: "regexp \<Rightarrow> string \<Rightarrow> string \<Rightarrow> string" where
  "String_replace alts template s = replace_g alts template [] s"

section \<open>extractVariables\<close>

definition placeholder :: "string \<Rightarrow> string" where
  "placeholder name = CHR ''{'' # name @ ''}''"

text \<open>
  The regular expression \<^verbatim>\<open>/\{([^}]+)\}/\<close> tried at the head of the input: an
  opening brace, the longest run of characters other than the closing brace, which must
  not be empty, and a closing brace. The result is the run and the input behind the match.
\<close>

definition variable_here :: "string \<Rightarrow> (string \<times> string) option" where
  "variable_here s =
     (case s of
        [] \<Rightarrow> None
      | c # r \<Rightarrow>
          if c = CHR ''{'' \<and> takeWhile (\<lambda>x. x \<noteq> CHR ''}'') r \<noteq> []
               \<and> dropWhile (\<lambda>x. x \<noteq> CHR ''}'') r \<noteq> []
          then Some (takeWhile (\<lambda>x. x \<noteq> CHR ''}'') r, tl (dropWhile (\<lambda>x. x \<noteq> CHR ''}'') r))
          else None)"

text \<open>
  \<^verbatim>\<open>text.match(regex)\<close> with the \<^verbatim>\<open>g\<close> flag: the matched texts from left
  to right, the scan going on behind each match. JavaScript returns \<^verbatim>\<open>null\<close>
  where this list is empty.
\<close>

function match_variables :: "string \<Rightarrow> string list" where
  "match_variables [] = []"
| "match_variables (c # cs) =
     (case variable_here (c # cs) of
        Some (name, rest) \<Rightarrow> placeholder name # match_variables rest
      | None \<Rightarrow> match_variables cs)"
  by pat_completeness auto
termination
proof (relation "measure length")
  fix c :: char and cs name rest :: string and x :: "string \<times> string"
  assume "variable_here (c # cs) = Some x" "(name, rest) = x"
  then have "rest = tl (dropWhile (\<lambda>x. x \<noteq> CHR ''}'') cs)"
    by (auto simp: variable_here_def split: if_splits)
  moreover have "length (dropWhile (\<lambda>x. x \<noteq> CHR ''}'') cs) \<le> length cs"
    by (rule length_dropWhile_le)
  ultimately show "(rest, c # cs) \<in> measure length"
    by simp
qed auto

text \<open>
  A JavaScript \<^verbatim>\<open>Set\<close> keeps its elements in insertion order, and adding an element
  it already holds changes nothing; spreading it into an array gives that order.
\<close>

definition Set_add :: "'a list \<Rightarrow> 'a \<Rightarrow> 'a list" where
  "Set_add s x = (if x \<in> set s then s else s @ [x])"

definition new_Set :: "'a list \<Rightarrow> 'a list" where
  "new_Set xs = foldl Set_add [] xs"

text \<open>\<^verbatim>\<open>m.slice(1, -1)\<close>: the string without its first and its last character.\<close>

definition slice_1_m1 :: "string \<Rightarrow> string" where
  "slice_1_m1 m = butlast (tl m)"

definition extractVariables :: "string \<Rightarrow> string list" where
  "extractVariables text =
     (let matches = match_variables text in
      if matches = [] then [] else map slice_1_m1 (new_Set matches))"

section \<open>replaceVariables\<close>

text \<open>
  The \<^verbatim>\<open>SyntaxCharacter\<close>s of the ECMAScript pattern grammar. Every other character of
  a pattern is a \<^verbatim>\<open>PatternCharacter\<close> and matches itself.
\<close>

definition SyntaxCharacter :: "char \<Rightarrow> bool" where
  "SyntaxCharacter c = (c \<in> set (''^$.*+?()[]{}|'' @ [CHR 0x5C]))"

datatype js_error = SyntaxError

text \<open>
  What a call does: it returns a value, or it throws, or it leaves the fragment of
  JavaScript that this development models (\<open>Unmodelled\<close>), in which case nothing is said
  about it.
\<close>

datatype 'a completion = Returned 'a | Thrown js_error | Unmodelled

fun split_bar :: "string \<Rightarrow> string list" where
  "split_bar [] = [[]]"
| "split_bar (c # cs) =
     (if c = CHR ''|'' then [] # split_bar cs
      else (case split_bar cs of a # as \<Rightarrow> (c # a) # as | [] \<Rightarrow> [[c]]))"

text \<open>
  The nesting depth of the groups of a pattern made of pattern characters and
  parentheses: \<open>None\<close> when a closing parenthesis has no opening one.
\<close>

fun group_depth :: "nat \<Rightarrow> string \<Rightarrow> nat option" where
  "group_depth d [] = Some d"
| "group_depth d (c # cs) =
     (if c = CHR ''('' then group_depth (Suc d) cs
      else if c = CHR '')'' then (case d of 0 \<Rightarrow> None | Suc d' \<Rightarrow> group_depth d' cs)
      else group_depth d cs)"

text \<open>
  \<^verbatim>\<open>new RegExp(`\\{${key}\\}`, 'g')\<close>: the key is spliced into the pattern as it is,
  so it is read as a pattern, not as a text.
  \<^item> A key of pattern characters and \<^verbatim>\<open>|\<close> gives the alternatives between the bars,
    the first one behind the opening brace and the last one in front of the closing brace
    (a key without a bar gives the single alternative \<^verbatim>\<open>{key}\<close>). An empty
    alternative matches the empty text, which is outside the fragment.
  \<^item> A key of pattern characters and parentheses that do not balance is no pattern:
    the constructor throws a \<^verbatim>\<open>SyntaxError\<close>.
  \<^item> Every other key (classes, quantifiers, escapes, groups, assertions, braces) is
    outside the fragment.
\<close>

definition new_RegExp_braced :: "string \<Rightarrow> regexp completion" where
  "new_RegExp_braced key =
     (if list_all (\<lambda>c. c = CHR ''|'' \<or> \<not> SyntaxCharacter c) key then
        (if [] \<in> set (split_bar (placeholder key)) then Unmodelled
         else Returned (split_bar (placeholder key)))
      else if list_all (\<lambda>c. c = CHR ''('' \<or> c = CHR '')'' \<or> \<not> SyntaxCharacter c) key
              \<and> group_depth 0 key \<noteq> Some 0
        then Thrown SyntaxError
      else Unmodelled)"

text \<open>
  The value inserted for a key: the value with \<^verbatim>\<open>&\<close>, then \<^verbatim>\<open><\<close>, then
  \<^verbatim>\<open>>\<close> replaced by their entities, or the placeholder itself when the value is
  empty.
\<close>

definition safeValue :: "string \<Rightarrow> string \<Rightarrow> string" where
  "safeValue key val =
     (if val \<noteq> [] then
        String_replace [''>''] ''&gt;'' (String_replace [''<''] ''&lt;'' (String_replace [''&''] ''&amp;'' val))
      else placeholder key)"

text \<open>
  The \<^verbatim>\<open>forEach\<close> over \<^verbatim>\<open>Object.entries(variables)\<close>. The variable map is
  given as the list of its entries in the order of \<^verbatim>\<open>Object.entries\<close>; the keys of an
  object are distinct. An exception thrown for one entry ends the loop.
\<close>

fun replaceVariables_loop :: "string \<Rightarrow> (string \<times> string) list \<Rightarrow> string completion" where
  "replaceVariables_loop newText [] = Returned newText"
| "replaceVariables_loop newText ((key, val) # entries) =
     (case new_RegExp_braced key of
        Thrown e \<Rightarrow> Thrown e
      | Unmodelled \<Rightarrow> Unmodelled
      | Returned regex \<Rightarrow>
          replaceVariables_loop (String_replace regex (safeValue key val) newText) entries)"

definition replaceVariables :: "string \<Rightarrow> (string \<times> string) list \<Rightarrow> string completion" where
  "replaceVariables text variables = replaceVariables_loop text variables"

section \<open>normalizeContent\<close>

definition ascii_letter :: "char \<Rightarrow> bool" where
  "ascii_letter c = (c \<in> set ''abcdefghijklmnopqrstuvwxyzABCDEFGHIJKLMNOPQRSTUVWXYZ'')"

text \<open>
  The test \<^verbatim>\<open>/<[a-z][\s\S]*>/i.test(content)\<close>: at some position there is a
  \<^verbatim>\<open><\<close>, then a letter, then (behind any characters) a \<^verbatim>\<open>>\<close>.
\<close>

fun tag_here :: "string \<Rightarrow> bool" where
  "tag_here (a # b # r) = (a = CHR ''<'' \<and> ascii_letter b \<and> CHR ''>'' \<in> set r)"
| "tag_here _ = False"

fun has_html_tag :: "string \<Rightarrow> bool" where
  "has_html_tag [] = False"
| "has_html_tag (c # cs) = (tag_here (c # cs) \<or> has_html_tag cs)"

definition normalizeContent :: "string \<Rightarrow> string" where
  "normalizeContent content =
     (if content = [] then []
      else if \<not> has_html_tag content \<and> LF \<in> set content
        then String_replace [[LF]] ''<br>'' content
      else content)"

section \<open>htmlToPlainText\<close>

text \<open>
  The function works on the document tree that the browser builds when the markup is
  assigned to \<^verbatim>\<open>innerHTML\<close> of a fresh \<^verbatim>\<open>div\<close>. The tree is a datatype; the
  browser's parser is a parameter \<open>parse\<close> giving the children of that \<^verbatim>\<open>div\<close>, with
  element names in lower case as the parser produces them.
\<close>

datatype node = Text string | Comment string | Element string "node list"

text \<open>
  \<^verbatim>\<open>el.after('\n')\<close> for every element named \<open>tag\<close> below the root: the node, its
  children treated alike, followed by a new text node when the node is such an element.
\<close>

fun after_newline :: "string \<Rightarrow> node \<Rightarrow> node list" where
  "after_newline tag (Element name children) =
     Element name (concat (map (after_newline tag) children))
       # (if name = tag then [Text [LF]] else [])"
| "after_newline tag n = [n]"

text \<open>\<^verbatim>\<open>el.replaceWith('\n')\<close> for every element named \<open>tag\<close> below the root.\<close>

fun replaceWith_newline :: "string \<Rightarrow> node \<Rightarrow> node" where
  "replaceWith_newline tag (Element name children) =
     (if name = tag then Text [LF] else Element name (map (replaceWith_newline tag) children))"
| "replaceWith_newline tag n = n"

definition blockElements :: "string list" where
  "blockElements = [''p'', ''div'', ''br'', ''li'', ''tr'']"

definition block_pass :: "node list \<Rightarrow> string \<Rightarrow> node list" where
  "block_pass children tag =
     (if tag = ''br'' then map (replaceWith_newline tag) children
      else concat (map (after_newline tag) children))"

text \<open>
  \<^verbatim>\<open>textContent\<close>: the data of the text nodes below a node, in document order. Where
  it is empty the function falls back to \<^verbatim>\<open>innerText\<close> and then to the empty string,
  which for the detached \<^verbatim>\<open>div\<close> is the empty string again.
\<close>

fun textContent :: "node \<Rightarrow> string" where
  "textContent (Text s) = s"
| "textContent (Comment s) = []"
| "textContent (Element name children) = concat (map textContent children)"

definition htmlToPlainText :: "(string \<Rightarrow> node list) \<Rightarrow> string \<Rightarrow> string" where
  "htmlToPlainText parse html =
     concat (map textContent (foldl block_pass (parse html) blockElements))"

section \<open>suggestContent\<close>

text \<open>
  The service reads the key once, \<^verbatim>\<open>process.env.API_KEY || ''\<close>, and calls the provider
  through \<^verbatim>\<open>ai.models.generateContent\<close>. The provider is a parameter: a function from
  the request to an error or to the text of the response, which may be missing. The prompt
  is a fixed text around the instruction and the content and is a parameter too. The
  function returns its result together with the requests it sent, in order.
\<close>

datatype service_error = ApiKeyNotConfigured | ProviderError string

record request =
  model :: string
  contents :: string

definition apiKey :: "string option \<Rightarrow> string" where
  "apiKey API_KEY = (case API_KEY of None \<Rightarrow> [] | Some k \<Rightarrow> k)"

definition suggestContent ::
  "string option \<Rightarrow> (string \<Rightarrow> string \<Rightarrow> string) \<Rightarrow> (request \<Rightarrow> service_error + string option)
     \<Rightarrow> string \<Rightarrow> string \<Rightarrow> (service_error + string) \<times> request list" where
  "suggestContent API_KEY prompt generateContent currentContent instruction =
     (if apiKey API_KEY = [] then (Inl ApiKeyNotConfigured, [])
      else
        (let req = \<lparr>model = ''gemini-2.5-flash'', contents = prompt instruction currentContent\<rparr> in
         case generateContent req of
           Inl error \<Rightarrow> (Inl error, [req])
         | Inr response_text \<Rightarrow>
             (Inr (case response_text of
                     None \<Rightarrow> currentContent
                   | Some t \<Rightarrow> if t = [] then currentContent else t),
              [req])))"

section \<open>Notions used to state the properties\<close>

text \<open>The names of the matches that the scan of the code finds, from left to right.\<close>

definition variable_names :: "string \<Rightarrow> string list" where
  "variable_names text = map slice_1_m1 (match_variables text)"



text \<open>The position of the first occurrence of an element in a list.\<close>

definition first_index :: "'a list \<Rightarrow> 'a \<Rightarrow> nat" where
  "first_index xs x = length (takeWhile (\<lambda>y. y \<noteq> x) xs)"

text \<open>A text with every line feed turned into one line-break tag.\<close>

definition br_for_LF :: "string \<Rightarrow> string" where
  "br_for_LF s = concat (map (\<lambda>x. if x = LF then ''<br>'' else [x]) s)"

text \<open>
  The plain-text projection as the specification words it: the text of a tree in document
  order, one line feed for a line break, and one line feed behind every paragraph,
  division, list item and row.
\<close>

fun plain_text :: "node \<Rightarrow> string" where
  "plain_text (Text s) = s"
| "plain_text (Comment s) = []"
| "plain_text (Element name children) =
     (if name = ''br'' then [LF]
      else concat (map plain_text children)
             @ (if name \<in> {''p'', ''div'', ''li'', ''tr''} then [LF] else []))"

text \<open>
  The text of a tree on which some passes of \<^const>\<open>htmlToPlainText\<close> are still to be
  run: \<open>A\<close> holds the names whose elements still get a line feed behind them, and \<open>b\<close>
  says whether the line breaks are still to be replaced.
\<close>

fun pending_text :: "string set \<Rightarrow> bool \<Rightarrow> node \<Rightarrow> string" where
  "pending_text A b (Text s) = s"
| "pending_text A b (Comment s) = []"
| "pending_text A b (Element name children) =
     (if b \<and> name = ''br'' then [LF]
      else concat (map (pending_text A b) children) @ (if name \<in> A then [LF] else []))"

text \<open>
  The notions below describe the brace structure of a text. A \<^emph>\<open>span\<close> is an opening
  brace, a run of characters that are no braces, and a closing brace; the tokens of a text
  are its spans and, one by one, the characters outside of spans.
\<close>

definition brace :: "char \<Rightarrow> bool" where
  "brace c = (c = CHR ''{'' \<or> c = CHR ''}'')"

datatype token = Ch char | Span string

definition span_here :: "string \<Rightarrow> (string \<times> string) option" where
  "span_here s =
     (case s of
        [] \<Rightarrow> None
      | c # cs \<Rightarrow>
          (case dropWhile (\<lambda>x. \<not> brace x) cs of
             [] \<Rightarrow> None
           | d # rest \<Rightarrow>
               if c = CHR ''{'' \<and> d = CHR ''}''
               then Some (takeWhile (\<lambda>x. \<not> brace x) cs, rest) else None))"

function tokens :: "string \<Rightarrow> token list" where
  "tokens [] = []"
| "tokens (c # cs) =
     (case span_here (c # cs) of
        Some (m, rest) \<Rightarrow> Span m # tokens rest
      | None \<Rightarrow> Ch c # tokens cs)"
  by pat_completeness auto
termination
proof (relation "measure length")
  fix c :: char and cs m rest :: string and x :: "string \<times> string"
  assume "span_here (c # cs) = Some x" "(m, rest) = x"
  then have "dropWhile (\<lambda>x. \<not> brace x) cs = CHR ''}'' # rest"
    by (auto simp: span_here_def split: list.splits if_splits)
  moreover have "length (dropWhile (\<lambda>x. \<not> brace x) cs) \<le> length cs"
    by (rule length_dropWhile_le)
  ultimately show "(rest, c # cs) \<in> measure length"
    by simp
qed auto

fun text_of :: "token \<Rightarrow> string" where
  "text_of (Ch c) = [c]"
| "text_of (Span m) = placeholder m"

definition untokens :: "token list \<Rightarrow> string" where
  "untokens ts = concat (map text_of ts)"

text \<open>
  A text is \<^emph>\<open>unnested\<close> when no opening brace stands between an opening brace and the
  next closing brace: behind an opening brace the next brace, if there is one, closes it.
  \<open>opn\<close> says whether an opening brace is waiting for its closing brace.
\<close>

fun unnested_from :: "bool \<Rightarrow> string \<Rightarrow> bool" where
  "unnested_from opn [] = True"
| "unnested_from opn (c # cs) =
     (if c = CHR ''{'' then \<not> opn \<and> unnested_from True cs
      else if c = CHR ''}'' then unnested_from False cs
      else unnested_from opn cs)"

definition unnested :: "string \<Rightarrow> bool" where
  "unnested s = unnested_from False s"

text \<open>
  The tokens of an unnested text are \<^emph>\<open>settled\<close>: an opening brace that starts no span has
  only characters that are no braces behind it, so filling a span cannot close it.
\<close>

fun settled :: "token list \<Rightarrow> bool" where
  "settled [] = True"
| "settled (Span m # ts) = ((\<forall>c\<in>set m. \<not> brace c) \<and> settled ts)"
| "settled (Ch c # ts) =
     ((c = CHR ''{'' \<longrightarrow> (\<forall>t\<in>set ts. \<exists>d. t = Ch d \<and> \<not> brace d)) \<and> settled ts)"

text \<open>Every span named \<open>k\<close> replaced by the characters of \<open>e\<close>.\<close>

definition subst :: "string \<Rightarrow> string \<Rightarrow> token list \<Rightarrow> token list" where
  "subst k e ts = concat (map (\<lambda>t. if t = Span k then map Ch e else [t]) ts)"

text \<open>
  A key without any syntax character of the pattern grammar, which the regular expression
  therefore reads as the text it is; and a value without braces and without the dollar
  sign, which \<^verbatim>\<open>replace\<close> therefore inserts as the text it is.
\<close>

definition literal_key :: "string \<Rightarrow> bool" where
  "literal_key k = list_all (\<lambda>c. \<not> SyntaxCharacter c) k"

definition plain_value :: "string \<Rightarrow> bool" where
  "plain_value v = list_all (\<lambda>c. c \<noteq> CHR ''{'' \<and> c \<noteq> CHR ''}'' \<and> c \<noteq> CHR ''$'') v"

text \<open>One round of the loop on tokens: an entry with a value fills the spans of its key.\<close>

definition fill :: "token list \<Rightarrow> string \<times> string \<Rightarrow> token list" where
  "fill ts entry =
     (if snd entry = [] then ts else subst (fst entry) (safeValue (fst entry) (snd entry)) ts)"

text \<open>
  What a token becomes when all entries are applied at once: a span whose name is a key
  becomes the inserted value of that key (which is the placeholder itself when the value
  is empty), every other token stays.
\<close>

fun filled :: "(string \<times> string) list \<Rightarrow> token \<Rightarrow> string" where
  "filled variables (Ch c) = [c]"
| "filled variables (Span n) =
     (case map_of variables n of None \<Rightarrow> placeholder n | Some v \<Rightarrow> safeValue n v)"

text \<open>The entity of a character, the ampersand included.\<close>

definition html_entity :: "char \<Rightarrow> string" where
  "html_entity c =
     (if c = CHR ''&'' then ''&amp;'' else if c = CHR ''<'' then ''&lt;''
      else if c = CHR ''>'' then ''&gt;'' else [c])"

section \<open>Properties of the string methods and of normalizeContent\<close>


lemma GetSubstitution_no_dollar:
  "CHR ''$'' \<notin> set t \<Longrightarrow> GetSubstitution m b a t = t"
  by (induction m b a t rule: GetSubstitution.induct) auto

lemma replace_g_char:
  "CHR ''$'' \<notin> set t \<Longrightarrow>
   replace_g [[c]] t b s = concat (map (\<lambda>x. if x = c then t else [x]) s)"
  by (induction s arbitrary: b) (auto simp: match_here_def GetSubstitution_no_dollar)

lemma String_replace_char:
  "CHR ''$'' \<notin> set t \<Longrightarrow>
   String_replace [[c]] t s = concat (map (\<lambda>x. if x = c then t else [x]) s)"
  by (simp add: String_replace_def replace_g_char)

lemma has_html_tag_iff:
  "has_html_tag s \<longleftrightarrow>
     (\<exists>p l m r. s = p @ CHR ''<'' # l # m @ CHR ''>'' # r \<and> ascii_letter l)"
proof (induction s)
  case Nil
  then show ?case by simp
next
  case (Cons c cs)
  show ?case
  proof
    assume "has_html_tag (c # cs)"
    then consider "tag_here (c # cs)" | "has_html_tag cs" by auto
    then show "\<exists>p l m r. c # cs = p @ CHR ''<'' # l # m @ CHR ''>'' # r \<and> ascii_letter l"
    proof cases
      case 1
      then obtain b r where cs: "cs = b # r" and c: "c = CHR ''<''" and b: "ascii_letter b"
        and r: "CHR ''>'' \<in> set r"
        by (cases cs) auto
      from r obtain m r' where "r = m @ CHR ''>'' # r'"
        by (auto simp: in_set_conv_decomp)
      with cs c b have "c # cs = [] @ CHR ''<'' # b # m @ CHR ''>'' # r' \<and> ascii_letter b"
        by simp
      then show ?thesis by blast
    next
      case 2
      with Cons.IH obtain p l m r where "cs = p @ CHR ''<'' # l # m @ CHR ''>'' # r" "ascii_letter l"
        by blast
      then have "c # cs = (c # p) @ CHR ''<'' # l # m @ CHR ''>'' # r \<and> ascii_letter l"
        by simp
      then show ?thesis by blast
    qed
  next
    assume "\<exists>p l m r. c # cs = p @ CHR ''<'' # l # m @ CHR ''>'' # r \<and> ascii_letter l"
    then obtain p l m r where eq: "c # cs = p @ CHR ''<'' # l # m @ CHR ''>'' # r" and l: "ascii_letter l"
      by blast
    show "has_html_tag (c # cs)"
    proof (cases p)
      case Nil
      with eq l show ?thesis by auto
    next
      case (Cons x p')
      with eq have "cs = p' @ CHR ''<'' # l # m @ CHR ''>'' # r" by simp
      with l Cons.IH have "has_html_tag cs" by blast
      then show ?thesis by simp
    qed
  qed
qed


lemma has_html_tag_br_for_LF:
  assumes "LF \<in> set s"
  shows "has_html_tag (br_for_LF s)"
proof -
  from assms obtain p r where "s = p @ LF # r"
    by (auto simp: in_set_conv_decomp)
  then have "br_for_LF s = br_for_LF p @ CHR ''<'' # CHR ''b'' # ''r'' @ CHR ''>'' # br_for_LF r"
    by (simp add: br_for_LF_def)
  moreover have "ascii_letter (CHR ''b'')"
    by (simp add: ascii_letter_def)
  ultimately show ?thesis
    unfolding has_html_tag_iff by blast
qed

lemma normalizeContent_cases:
  "normalizeContent c = (if \<not> has_html_tag c \<and> LF \<in> set c then br_for_LF c else c)"
  by (auto simp: normalizeContent_def String_replace_char br_for_LF_def)

lemma normalizeContent_scenario:
  "normalizeContent (''Line one'' @ [LF] @ ''Line two'') = ''Line one<br>Line two''"
  by (simp add: normalizeContent_def String_replace_def match_here_def LF_def ascii_letter_def)

text \<open>
  Claim C7, as the code has it. The code looks for an opening tag: a \<^verbatim>\<open><\<close>, a
  letter right behind it, and a \<^verbatim>\<open>>\<close> somewhere further on. Content without an
  opening tag and with at least one line feed comes back with every line feed turned into
  one \<^verbatim>\<open><br>\<close>; content with an opening tag comes back unchanged, line feeds
  included; and the legacy text of the scenario becomes \<^verbatim>\<open>Line one<br>Line two\<close>.
\<close>

theorem normalizeContent_converts_newlines:
  "(\<not> (\<exists>p l m r. c = p @ CHR ''<'' # l # m @ CHR ''>'' # r \<and> ascii_letter l) \<and> LF \<in> set c
      \<longrightarrow> normalizeContent c = concat (map (\<lambda>x. if x = LF then ''<br>'' else [x]) c))
   \<and> ((\<exists>p l m r. c = p @ CHR ''<'' # l # m @ CHR ''>'' # r \<and> ascii_letter l)
      \<longrightarrow> normalizeContent c = c)
   \<and> normalizeContent (''Line one'' @ [LF] @ ''Line two'') = ''Line one<br>Line two''"
proof (intro conjI)
  show "\<not> (\<exists>p l m r. c = p @ CHR ''<'' # l # m @ CHR ''>'' # r \<and> ascii_letter l) \<and> LF \<in> set c
      \<longrightarrow> normalizeContent c = concat (map (\<lambda>x. if x = LF then ''<br>'' else [x]) c)"
    unfolding has_html_tag_iff[symmetric]
    by (simp add: normalizeContent_cases br_for_LF_def)
  show "(\<exists>p l m r. c = p @ CHR ''<'' # l # m @ CHR ''>'' # r \<and> ascii_letter l)
      \<longrightarrow> normalizeContent c = c"
    unfolding has_html_tag_iff[symmetric]
    by (simp add: normalizeContent_cases)
  show "normalizeContent (''Line one'' @ [LF] @ ''Line two'') = ''Line one<br>Line two''"
    by (rule normalizeContent_scenario)
qed

theorem normalizeContent_converts_newlines_witness:
  "normalizeContent (''a'' @ [LF] @ ''b'') = ''a<br>b''
   \<and> normalizeContent (''<b>a</b>'' @ [LF] @ ''b'') = ''<b>a</b>'' @ [LF] @ ''b''"
proof -
  have no_tag: "\<not> (\<exists>p l m r. ''a'' @ [LF] @ ''b'' = p @ CHR ''<'' # l # m @ CHR ''>'' # r \<and> ascii_letter l)"
    unfolding has_html_tag_iff[symmetric] by (simp add: LF_def)
  have lf: "LF \<in> set (''a'' @ [LF] @ ''b'')"
    by simp
  have tag: "\<exists>p l m r. ''<b>a</b>'' @ [LF] @ ''b'' = p @ CHR ''<'' # l # m @ CHR ''>'' # r \<and> ascii_letter l"
    unfolding has_html_tag_iff[symmetric] by (simp add: ascii_letter_def)
  from normalizeContent_converts_newlines[of "''a'' @ [LF] @ ''b''"] no_tag lf
  have "normalizeContent (''a'' @ [LF] @ ''b'') = ''a<br>b''"
    by (simp add: LF_def)
  moreover from normalizeContent_converts_newlines[of "''<b>a</b>'' @ [LF] @ ''b''"] tag
  have "normalizeContent (''<b>a</b>'' @ [LF] @ ''b'') = ''<b>a</b>'' @ [LF] @ ''b''"
    by blast
  ultimately show ?thesis by simp
qed

text \<open>
  The claim as stated fails: a closing tag is a markup tag, but not an opening one. The
  content \<^verbatim>\<open></b>\<close>, line feed, \<^verbatim>\<open>x\<close> holds the tag \<^verbatim>\<open></b>\<close> and is
  not returned unchanged: its line feed becomes a line-break tag.
\<close>

theorem normalizeContent_converts_newlines_counterexample:
  "sublist ''</b>'' (''</b>'' @ [LF] @ ''x'')
   \<and> normalizeContent (''</b>'' @ [LF] @ ''x'') = ''</b><br>x''
   \<and> normalizeContent (''</b>'' @ [LF] @ ''x'') \<noteq> ''</b>'' @ [LF] @ ''x''"
  by (simp add: normalizeContent_def String_replace_def match_here_def LF_def ascii_letter_def)

text \<open>
  Claim C10. Normalising twice gives what normalising once gives: once the line feeds are
  line-break tags the text holds a tag and is returned as it is.
\<close>

theorem normalizeContent_idempotent:
  "normalizeContent (normalizeContent c) = normalizeContent c"
proof (cases "\<not> has_html_tag c \<and> LF \<in> set c")
  case True
  then have "normalizeContent c = br_for_LF c"
    by (simp add: normalizeContent_cases)
  moreover from True have "has_html_tag (br_for_LF c)"
    by (simp add: has_html_tag_br_for_LF)
  then have "normalizeContent (br_for_LF c) = br_for_LF c"
    by (simp add: normalizeContent_cases)
  ultimately show ?thesis
    by simp
next
  case False
  then have "normalizeContent c = c"
    by (auto simp: normalizeContent_cases)
  then show ?thesis
    by simp
qed

section \<open>Properties of suggestContent\<close>

text \<open>
  Claim C9. With no key configured (the variable unset or empty) the call fails with the
  configuration error and has sent no request, whatever the content, the instruction and
  the provider are.
\<close>

theorem suggestContent_no_key:
  "API_KEY = None \<or> API_KEY = Some [] \<Longrightarrow>
   suggestContent API_KEY prompt generateContent currentContent instruction
     = (Inl ApiKeyNotConfigured, [])"
  by (auto simp: suggestContent_def apiKey_def)

theorem suggestContent_no_key_witness:
  "suggestContent None (\<lambda>i c. i @ c) (\<lambda>r. Inr (Some ''new'')) ''<b>old</b>'' ''shorter''
     = (Inl ApiKeyNotConfigured, [])
   \<and> suggestContent (Some []) (\<lambda>i c. i @ c) (\<lambda>r. Inr (Some ''new'')) ''<b>old</b>'' ''shorter''
     = (Inl ApiKeyNotConfigured, [])"
  using suggestContent_no_key[of None "\<lambda>i c. i @ c" "\<lambda>r. Inr (Some ''new'')" "''<b>old</b>''" "''shorter''"]
    suggestContent_no_key[of "Some []" "\<lambda>i c. i @ c" "\<lambda>r. Inr (Some ''new'')" "''<b>old</b>''" "''shorter''"]
  by simp

section \<open>Properties of extractVariables\<close>

lemma slice_placeholder [simp]: "slice_1_m1 (placeholder n) = n"
  by (simp add: slice_1_m1_def placeholder_def)

lemma variable_here_SomeD:
  assumes "variable_here s = Some (name, rest)"
  shows "s = placeholder name @ rest" "name \<noteq> []" "CHR ''}'' \<notin> set name"
proof -
  from assms obtain c r where s: "s = c # r" and c: "c = CHR ''{''"
    and name: "name = takeWhile (\<lambda>x. x \<noteq> CHR ''}'') r"
    and rest: "rest = tl (dropWhile (\<lambda>x. x \<noteq> CHR ''}'') r)"
    and ne: "name \<noteq> []" "dropWhile (\<lambda>x. x \<noteq> CHR ''}'') r \<noteq> []"
    by (cases s) (auto simp: variable_here_def split: if_splits)
  from ne(2) have "hd (dropWhile (\<lambda>x. x \<noteq> CHR ''}'') r) = CHR ''}''"
    using hd_dropWhile[of "\<lambda>x. x \<noteq> CHR ''}''" r] by simp
  with ne(2) rest have "dropWhile (\<lambda>x. x \<noteq> CHR ''}'') r = CHR ''}'' # rest"
    by (cases "dropWhile (\<lambda>x. x \<noteq> CHR ''}'') r") auto
  with name have "r = name @ CHR ''}'' # rest"
    using takeWhile_dropWhile_id[of "\<lambda>x. x \<noteq> CHR ''}''" r] by simp
  with s c show "s = placeholder name @ rest"
    by (simp add: placeholder_def)
  show "name \<noteq> []" by fact
  from name show "CHR ''}'' \<notin> set name"
    by (auto dest: set_takeWhileD)
qed

lemma match_variables_shape:
  "m \<in> set (match_variables s) \<Longrightarrow>
   \<exists>n. m = placeholder n \<and> n \<noteq> [] \<and> CHR ''}'' \<notin> set n \<and> sublist m s"
proof (induction s rule: match_variables.induct)
  case 1
  then show ?case by simp
next
  case (2 c cs)
  show ?case
  proof (cases "variable_here (c # cs)")
    case None
    with 2 obtain n where "m = placeholder n" "n \<noteq> []" "CHR ''}'' \<notin> set n" "sublist m cs"
      by auto
    then show ?thesis
      by (auto simp: sublist_Cons_right)
  next
    case (Some p)
    obtain name rest where p: "p = (name, rest)" by (cases p)
    note d = variable_here_SomeD[OF Some[unfolded p]]
    from 2(3) Some p consider "m = placeholder name" | "m \<in> set (match_variables rest)"
      by auto
    then show ?thesis
    proof cases
      case 1
      with d show ?thesis
        by auto
    next
      case 2
      with "2.IH"(2)[OF Some p[symmetric]] obtain n where
        n: "m = placeholder n" "n \<noteq> []" "CHR ''}'' \<notin> set n" "sublist m rest"
        by auto
      from n(4) obtain ps ss where "rest = ps @ m @ ss"
        by (auto simp: sublist_def)
      with d(1) have "c # cs = (placeholder name @ ps) @ m @ ss"
        by simp
      then have "sublist m (c # cs)"
        unfolding sublist_def by blast
      with n show ?thesis by blast
    qed
  qed
qed

lemma set_foldl_Set_add: "set (foldl Set_add acc xs) = set acc \<union> set xs"
  by (induction xs arbitrary: acc) (auto simp: Set_add_def)


lemma map_foldl_Set_add:
  "inj_on f (set acc \<union> set xs) \<Longrightarrow>
   map f (foldl Set_add acc xs) = foldl Set_add (map f acc) (map f xs)"
proof (induction xs arbitrary: acc)
  case Nil
  then show ?case by simp
next
  case (Cons x xs)
  have inj: "inj_on f (set (Set_add acc x) \<union> set xs)"
    using Cons.prems by (auto simp: Set_add_def elim: inj_on_subset)
  have "map f (Set_add acc x) = Set_add (map f acc) (f x)"
    using Cons.prems by (auto simp: Set_add_def inj_on_def)
  with Cons.IH[OF inj] show ?case by simp
qed

lemma first_index_Nil [simp]: "first_index [] a = 0"
  by (simp add: first_index_def)

lemma first_index_Cons [simp]:
  "first_index (x # xs) a = (if x = a then 0 else Suc (first_index xs a))"
  by (simp add: first_index_def)





lemma extractVariables_new_Set: "extractVariables t = new_Set (variable_names t)"
proof -
  have "inj_on slice_1_m1 (set (match_variables t))"
    by (rule inj_onI) (auto dest!: match_variables_shape)
  then have "map slice_1_m1 (new_Set (match_variables t)) = new_Set (variable_names t)"
    by (simp add: new_Set_def variable_names_def map_foldl_Set_add)
  then show ?thesis
    by (auto simp: extractVariables_def Let_def variable_names_def new_Set_def)
qed

lemma extractVariables_shape:
  assumes "n \<in> set (extractVariables t)"
  shows "n \<noteq> [] \<and> CHR ''}'' \<notin> set n \<and> sublist (placeholder n) t"
proof -
  from assms obtain m where "m \<in> set (match_variables t)" "n = slice_1_m1 m"
    by (auto simp: extractVariables_new_Set new_Set_def set_foldl_Set_add variable_names_def)
  then show ?thesis
    by (auto dest!: match_variables_shape)
qed

lemma extractVariables_scenario:
  "extractVariables ''Hello {name}, your due date is {due_date}.'' = [''name'', ''due_date'']"
  by (simp add: extractVariables_def variable_here_def new_Set_def Set_add_def placeholder_def
      slice_1_m1_def)

subsection \<open>The scan finds the occurrences of the text\<close>





lemma match_variables_None:
  "variable_here (c # cs) = None \<Longrightarrow> match_variables (c # cs) = match_variables cs"
  by simp









text \<open>
  Claim C5, as the code has it. Every returned name is the inner text of a span of the
  content that the pattern matches: it is not empty, it holds no closing brace, and the
  name between braces occurs in the content. The pattern excludes only the closing brace
  from a name, so a name may hold an opening brace.
\<close>

theorem extractVariables_names:
  "n \<in> set (extractVariables t) \<Longrightarrow>
     n \<noteq> [] \<and> CHR ''}'' \<notin> set n \<and> sublist (placeholder n) t"
proof -
  assume "n \<in> set (extractVariables t)"
  then have "n \<in> set (variable_names t)"
    by (simp add: extractVariables_new_Set new_Set_def set_foldl_Set_add)
  then obtain m where "m \<in> set (match_variables t)" and "n = slice_1_m1 m"
    by (auto simp: variable_names_def)
  moreover from this obtain n' where "m = placeholder n'" "n' \<noteq> []" "CHR ''}'' \<notin> set n'"
    "sublist m t"
    using match_variables_shape by blast
  ultimately show ?thesis
    by simp
qed

theorem extractVariables_names_witness:
  "''due_date'' \<noteq> [] \<and> CHR ''}'' \<notin> set ''due_date''
   \<and> sublist (placeholder ''due_date'') ''Hello {name}, your due date is {due_date}.''"
proof -
  have "''due_date'' \<in> set (extractVariables ''Hello {name}, your due date is {due_date}.'')"
    by (simp add: extractVariables_scenario)
  then show ?thesis
    by (rule extractVariables_names)
qed

text \<open>
  The claim as stated fails: the only name of \<^verbatim>\<open>{a{b}\<close> holds an opening brace.
\<close>

theorem extractVariables_names_counterexample:
  "extractVariables ''{a{b}'' = [''a{b''] \<and> CHR ''{'' \<in> set ''a{b''"
  by (simp add: extractVariables_def variable_here_def new_Set_def Set_add_def placeholder_def
      slice_1_m1_def)

section \<open>Properties of htmlToPlainText\<close>

lemma textContent_pending: "textContent n = pending_text {} False n"
  by (induction n) (auto cong: map_cong)

lemma plain_text_pending: "plain_text n = pending_text {''p'', ''div'', ''li'', ''tr''} True n"
  by (induction n) (auto cong: map_cong)

lemma concat_map_concat_map:
  "concat (map f (concat (map g xs))) = concat (map (\<lambda>x. concat (map f (g x))) xs)"
  by (induction xs) auto

lemma pending_after_newline:
  "tag \<notin> A \<Longrightarrow> (b \<longrightarrow> tag \<noteq> ''br'') \<Longrightarrow>
   concat (map (pending_text A b) (after_newline tag n)) = pending_text (insert tag A) b n"
proof (induction n)
  case (Element name children)
  have "concat (map (pending_text A b) (concat (map (after_newline tag) children)))
      = concat (map (pending_text (insert tag A) b) children)"
    unfolding concat_map_concat_map
    using Element by (auto intro!: arg_cong[where f=concat] map_cong)
  with Element.prems show ?case by auto
qed auto

lemma pending_replaceWith_newline:
  "pending_text A False (replaceWith_newline ''br'' n) = pending_text A True n"
  by (induction n) (auto cong: map_cong simp: comp_def)

lemma pending_after_pass:
  "tag \<notin> A \<Longrightarrow> tag \<noteq> ''br'' \<Longrightarrow>
   concat (map (pending_text A b) (block_pass ns tag))
     = concat (map (pending_text (insert tag A) b) ns)"
  by (simp add: block_pass_def concat_map_concat_map pending_after_newline)

lemma pending_br_pass:
  "concat (map (pending_text A False) (block_pass ns ''br''))
     = concat (map (pending_text A True) ns)"
  by (simp add: block_pass_def comp_def pending_replaceWith_newline)

lemma htmlToPlainText_plain:
  "htmlToPlainText parse html = concat (map plain_text (parse html))"
proof -
  have "htmlToPlainText parse html
      = concat (map (pending_text {} False)
          (block_pass (block_pass (block_pass (block_pass (block_pass (parse html) ''p'') ''div'') ''br'') ''li'') ''tr''))"
    by (simp add: htmlToPlainText_def blockElements_def textContent_pending[abs_def])
  also have "\<dots> = concat (map (pending_text {''tr''} False)
          (block_pass (block_pass (block_pass (block_pass (parse html) ''p'') ''div'') ''br'') ''li''))"
    by (simp add: pending_after_pass)
  also have "\<dots> = concat (map (pending_text {''li'', ''tr''} False)
          (block_pass (block_pass (block_pass (parse html) ''p'') ''div'') ''br''))"
    by (simp add: pending_after_pass)
  also have "\<dots> = concat (map (pending_text {''li'', ''tr''} True)
          (block_pass (block_pass (parse html) ''p'') ''div''))"
    by (simp add: pending_br_pass)
  also have "\<dots> = concat (map (pending_text {''div'', ''li'', ''tr''} True)
          (block_pass (parse html) ''p''))"
    by (simp add: pending_after_pass)
  also have "\<dots> = concat (map (pending_text {''p'', ''div'', ''li'', ''tr''} True) (parse html))"
    by (simp add: pending_after_pass)
  finally show ?thesis
    by (simp add: plain_text_pending[abs_def])
qed

text \<open>
  Claim C8. Whatever tree the browser builds for the markup, the result is the text of
  that tree in document order with one line feed for every line break and one line feed
  behind every paragraph, division, list item and row; the result is made of the data of
  text nodes and of these line feeds only, so no tag of the tree reaches it. When the
  markup of the scenario is parsed into its two paragraphs, the result is
  \<^verbatim>\<open>Hi\<close>, a line feed, \<^verbatim>\<open>There\<close>, a line feed.
\<close>

theorem htmlToPlainText_projection:
  "htmlToPlainText parse html = concat (map plain_text (parse html))
   \<and> (parse ''<p>Hi</p><p>There</p>'' = [Element ''p'' [Text ''Hi''], Element ''p'' [Text ''There'']]
      \<longrightarrow> htmlToPlainText parse ''<p>Hi</p><p>There</p>'' = ''Hi'' @ [LF] @ ''There'' @ [LF])"
proof
  show "htmlToPlainText parse html = concat (map plain_text (parse html))"
    by (rule htmlToPlainText_plain)
  show "parse ''<p>Hi</p><p>There</p>'' = [Element ''p'' [Text ''Hi''], Element ''p'' [Text ''There'']]
      \<longrightarrow> htmlToPlainText parse ''<p>Hi</p><p>There</p>'' = ''Hi'' @ [LF] @ ''There'' @ [LF]"
  proof
    assume "parse ''<p>Hi</p><p>There</p>'' = [Element ''p'' [Text ''Hi''], Element ''p'' [Text ''There'']]"
    then have "concat (map plain_text (parse ''<p>Hi</p><p>There</p>'')) = ''Hi'' @ [LF] @ ''There'' @ [LF]"
      by simp
    then show "htmlToPlainText parse ''<p>Hi</p><p>There</p>'' = ''Hi'' @ [LF] @ ''There'' @ [LF]"
      by (simp only: htmlToPlainText_plain)
  qed
qed

theorem htmlToPlainText_projection_witness:
  "htmlToPlainText (\<lambda>html. [Element ''p'' [Text ''Hi''], Element ''p'' [Text ''There'']])
     ''<p>Hi</p><p>There</p>'' = ''Hi'' @ [LF] @ ''There'' @ [LF]"
  using htmlToPlainText_projection
    [of "\<lambda>html. [Element ''p'' [Text ''Hi''], Element ''p'' [Text ''There'']]" "''<p>Hi</p><p>There</p>''"]
  by simp

section \<open>Properties of replaceVariables\<close>

subsection \<open>Texts and their tokens\<close>

text \<open>
  A text is the text of its tokens; the tokens of an unnested text are settled; and settled
  tokens are the tokens of their text.
\<close>

lemma span_here_iff:
  "span_here s = Some (m, rest) \<longleftrightarrow> s = placeholder m @ rest \<and> (\<forall>c\<in>set m. \<not> brace c)"
proof
  assume "span_here s = Some (m, rest)"
  then obtain cs where s: "s = CHR ''{'' # cs"
    and d: "dropWhile (\<lambda>x. \<not> brace x) cs = CHR ''}'' # rest"
    and m: "m = takeWhile (\<lambda>x. \<not> brace x) cs"
    by (auto simp: span_here_def split: list.splits if_splits)
  from d m have "cs = m @ CHR ''}'' # rest"
    using takeWhile_dropWhile_id[of "\<lambda>x. \<not> brace x" cs] by simp
  moreover from m have "\<forall>c\<in>set m. \<not> brace c"
    by (auto dest: set_takeWhileD)
  ultimately show "s = placeholder m @ rest \<and> (\<forall>c\<in>set m. \<not> brace c)"
    using s by (simp add: placeholder_def)
next
  assume a: "s = placeholder m @ rest \<and> (\<forall>c\<in>set m. \<not> brace c)"
  then have "takeWhile (\<lambda>x. \<not> brace x) (m @ CHR ''}'' # rest) = m"
    "dropWhile (\<lambda>x. \<not> brace x) (m @ CHR ''}'' # rest) = CHR ''}'' # rest"
    by (simp_all add: takeWhile_append2 dropWhile_append2 brace_def)
  with a show "span_here s = Some (m, rest)"
    by (simp add: span_here_def placeholder_def)
qed

lemma tokens_span: "span_here s = Some (m, rest) \<Longrightarrow> tokens s = Span m # tokens rest"
  by (cases s) (auto simp: span_here_def)

lemma tokens_placeholder:
  "\<forall>c\<in>set m. \<not> brace c \<Longrightarrow> tokens (placeholder m @ rest) = Span m # tokens rest"
  by (rule tokens_span) (simp add: span_here_iff)

lemma tokens_char: "span_here (c # cs) = None \<Longrightarrow> tokens (c # cs) = Ch c # tokens cs"
  by simp

lemma untokens_simps [simp]:
  "untokens [] = []"
  "untokens (t # ts) = text_of t @ untokens ts"
  "untokens (ts @ us) = untokens ts @ untokens us"
  by (simp_all add: untokens_def)

lemma untokens_tokens: "untokens (tokens s) = s"
proof (induction s rule: tokens.induct)
  case 1
  then show ?case by simp
next
  case (2 c cs)
  show ?case
  proof (cases "span_here (c # cs)")
    case None
    with 2 show ?thesis by simp
  next
    case (Some p)
    obtain m rest where p: "p = (m, rest)" by (cases p)
    from Some p have eq: "c # cs = placeholder m @ rest"
      by (simp add: span_here_iff)
    have "untokens (tokens (c # cs)) = placeholder m @ untokens (tokens rest)"
      using Some p by simp
    with "2.IH"(2)[OF Some p[symmetric]] eq show ?thesis
      by simp
  qed
qed

lemma tokens_no_brace: "\<forall>c\<in>set u. \<not> brace c \<Longrightarrow> tokens (u @ s) = map Ch u @ tokens s"
proof (induction u)
  case Nil
  then show ?case by simp
next
  case (Cons a u)
  then have "span_here (a # u @ s) = None"
    by (auto simp: span_here_def brace_def split: list.splits)
  with Cons show ?case by simp
qed

lemma unnested_from_no_brace:
  "\<forall>c\<in>set u. \<not> brace c \<Longrightarrow> unnested_from opn (u @ s) = unnested_from opn s"
  by (induction u) (auto simp: brace_def)

lemma settled_chars: "\<forall>c\<in>set u. \<not> brace c \<Longrightarrow> settled (map Ch u @ ts) = settled ts"
  by (induction u) (auto simp: brace_def)

lemma span_here_None_open:
  assumes "span_here (CHR ''{'' # cs) = None"
  shows "(\<forall>c\<in>set cs. \<not> brace c)
     \<or> (\<exists>u r. cs = u @ CHR ''{'' # r \<and> (\<forall>c\<in>set u. \<not> brace c))"
proof (cases "dropWhile (\<lambda>x. \<not> brace x) cs")
  case Nil
  then show ?thesis by (auto simp: dropWhile_eq_Nil_conv)
next
  case (Cons d rest)
  with assms have "d \<noteq> CHR ''}''"
    by (auto simp: span_here_def)
  moreover from Cons have "brace d"
    using hd_dropWhile[of "\<lambda>x. \<not> brace x" cs] by auto
  ultimately have "d = CHR ''{''"
    by (simp add: brace_def)
  with Cons have "cs = takeWhile (\<lambda>x. \<not> brace x) cs @ CHR ''{'' # rest"
    using takeWhile_dropWhile_id[of "\<lambda>x. \<not> brace x" cs] by simp
  moreover have "\<forall>c\<in>set (takeWhile (\<lambda>x. \<not> brace x) cs). \<not> brace c"
    by (auto dest: set_takeWhileD)
  ultimately show ?thesis by blast
qed

lemma settled_tokens: "unnested s \<Longrightarrow> settled (tokens s)"
  unfolding unnested_def
proof (induction s rule: tokens.induct)
  case 1
  then show ?case by simp
next
  case (2 c cs)
  show ?case
  proof (cases "span_here (c # cs)")
    case (Some p)
    obtain m rest where p: "p = (m, rest)" by (cases p)
    from Some p have eq: "c # cs = placeholder m @ rest" and m: "\<forall>c\<in>set m. \<not> brace c"
      by (simp_all add: span_here_iff)
    from "2.prems" eq have "unnested_from True (m @ CHR ''}'' # rest)"
      by (simp add: placeholder_def)
    with m have "unnested_from False rest"
      by (simp add: unnested_from_no_brace)
    with "2.IH"(2)[OF Some p[symmetric]] have "settled (tokens rest)" .
    with m Some p show ?thesis by simp
  next
    case None
    show ?thesis
    proof (cases "c = CHR ''{''")
      case False
      with "2.prems" have "unnested_from False cs"
        by (simp split: if_splits)
      with "2.IH"(1)[OF None] have "settled (tokens cs)" .
      with None False show ?thesis by simp
    next
      case True
      with "2.prems" have u: "unnested_from True cs" by simp
      from None True span_here_None_open[of cs] consider
        "\<forall>c\<in>set cs. \<not> brace c"
        | u' r where "cs = u' @ CHR ''{'' # r" "\<forall>c\<in>set u'. \<not> brace c"
        by blast
      then show ?thesis
      proof cases
        case 1
        then have "tokens cs = map Ch cs"
          using tokens_no_brace[of cs "[]"] by simp
        moreover from 1 have "settled (map Ch cs)"
          using settled_chars[of cs "[]"] by simp
        ultimately show ?thesis
          using None 1 by auto
      next
        case 2
        with u have False
          by (simp add: unnested_from_no_brace)
        then show ?thesis ..
      qed
    qed
  qed
qed

lemma tokens_untokens: "settled ts \<Longrightarrow> tokens (untokens ts) = ts"
proof (induction ts rule: settled.induct)
  case 1
  then show ?case by simp
next
  case (2 m ts)
  then show ?case
    by (simp add: tokens_placeholder)
next
  case (3 c ts)
  show ?case
  proof (cases "c = CHR ''{''")
    case False
    then have "span_here (c # untokens ts) = None"
      by (simp add: span_here_def split: list.splits)
    with 3 show ?thesis by simp
  next
    case True
    with "3.prems" have "\<forall>t\<in>set ts. \<exists>d. t = Ch d \<and> \<not> brace d" by simp
    then have "\<forall>x\<in>set (untokens ts). \<not> brace x"
      by (induction ts) auto
    then have "dropWhile (\<lambda>x. \<not> brace x) (untokens ts) = []"
      by (simp add: dropWhile_eq_Nil_conv)
    then have "span_here (c # untokens ts) = None"
      by (simp add: span_here_def del: dropWhile_eq_Nil_conv)
    with 3 show ?thesis by simp
  qed
qed

subsection \<open>Replacing one placeholder\<close>

text \<open>
  For a key without braces and a template without a dollar sign, the global replace of the
  placeholder of the key works on the tokens of the text: every span of that name becomes
  the template, every other token keeps its text.
\<close>

lemma match_here_single:
  "match_here [p] s = (if p \<noteq> [] \<and> prefix p s then Some p else None)"
  by (simp add: match_here_def)

lemma prefix_placeholder_span:
  assumes "\<forall>c\<in>set k. \<not> brace c" "prefix (placeholder k) s"
  shows "span_here s = Some (k, drop (length (placeholder k)) s)"
proof -
  from assms(2) obtain z where "s = placeholder k @ z"
    by (auto simp: prefix_def)
  with assms(1) show ?thesis
    by (simp add: span_here_iff)
qed

lemma replace_g_skip:
  "CHR ''{'' \<notin> set u \<Longrightarrow>
   replace_g [placeholder k] r pre (u @ s) = u @ replace_g [placeholder k] r (pre @ u) s"
proof (induction u arbitrary: pre)
  case Nil
  then show ?case by simp
next
  case (Cons a u)
  then have "match_here [placeholder k] (a # u @ s) = None"
    by (auto simp: match_here_single placeholder_def)
  with Cons show ?case by simp
qed

lemma replace_g_tokens:
  assumes k: "\<forall>c\<in>set k. \<not> brace c" and r: "CHR ''$'' \<notin> set r"
  shows "replace_g [placeholder k] r pre s
     = concat (map (\<lambda>t. if t = Span k then r else text_of t) (tokens s))"
proof (induction s arbitrary: pre rule: tokens.induct)
  case 1
  then show ?case by simp
next
  case (2 c cs)
  show ?case
  proof (cases "span_here (c # cs)")
    case None
    with k have "\<not> prefix (placeholder k) (c # cs)"
      using prefix_placeholder_span[of k "c # cs"] by auto
    then have "match_here [placeholder k] (c # cs) = None"
      by (simp add: match_here_single)
    with None "2.IH"(1)[OF None] show ?thesis
      by simp
  next
    case (Some p)
    obtain m rest where p: "p = (m, rest)" by (cases p)
    from Some p have eq: "c # cs = placeholder m @ rest" and m: "\<forall>c\<in>set m. \<not> brace c"
      by (simp_all add: span_here_iff)
    note IH = "2.IH"(2)[OF Some p[symmetric]]
    have toks: "tokens (c # cs) = Span m # tokens rest"
      using Some p by simp
    show ?thesis
    proof (cases "m = k")
      case True
      with eq have "match_here [placeholder k] (c # cs) = Some (placeholder k)"
        by (simp add: match_here_single placeholder_def)
      moreover from eq True have "drop (length (placeholder k)) (c # cs) = rest"
        by simp
      ultimately have "replace_g [placeholder k] r pre (c # cs)
          = r @ replace_g [placeholder k] r (pre @ placeholder k) rest"
        by (simp add: GetSubstitution_no_dollar[OF r])
      with IH[of "pre @ placeholder k"] toks True show ?thesis
        by simp
    next
      case False
      with k Some p have "\<not> prefix (placeholder k) (c # cs)"
        using prefix_placeholder_span[of k "c # cs"] by auto
      then have "match_here [placeholder k] (c # cs) = None"
        by (simp add: match_here_single)
      then have "replace_g [placeholder k] r pre (c # cs)
          = c # replace_g [placeholder k] r (pre @ [c]) cs"
        by simp
      moreover from eq have c: "c = CHR ''{''" and cs: "cs = (m @ ''}'') @ rest"
        by (simp_all add: placeholder_def)
      moreover from m have "CHR ''{'' \<notin> set (m @ ''}'')"
        by (auto simp: brace_def)
      then have "replace_g [placeholder k] r (pre @ [c]) ((m @ ''}'') @ rest)
          = (m @ ''}'') @ replace_g [placeholder k] r ((pre @ [c]) @ m @ ''}'') rest"
        by (rule replace_g_skip)
      ultimately have "replace_g [placeholder k] r pre (c # cs)
          = placeholder m @ replace_g [placeholder k] r ((pre @ [c]) @ m @ ''}'') rest"
        by (simp add: placeholder_def)
      with IH[of "(pre @ [c]) @ m @ ''}''"] toks False show ?thesis
        by simp
    qed
  qed
qed

lemma untokens_subst:
  "untokens (subst k e ts) = concat (map (\<lambda>t. if t = Span k then e else text_of t) ts)"
proof (induction ts)
  case Nil
  then show ?case by (simp add: subst_def)
next
  case (Cons t ts)
  have "untokens (map Ch e) = e"
    by (induction e) auto
  with Cons show ?case
    by (simp add: subst_def)
qed

lemma String_replace_subst:
  assumes "\<forall>c\<in>set k. \<not> brace c" "CHR ''$'' \<notin> set e"
  shows "String_replace [placeholder k] e s = untokens (subst k e (tokens s))"
  by (simp add: String_replace_def replace_g_tokens[OF assms] untokens_subst)

lemma String_replace_same:
  assumes "\<forall>c\<in>set k. \<not> brace c" "CHR ''$'' \<notin> set k"
  shows "String_replace [placeholder k] (placeholder k) s = s"
proof -
  from assms(2) have "CHR ''$'' \<notin> set (placeholder k)"
    by (simp add: placeholder_def)
  from replace_g_tokens[OF assms(1) this, of "[]" s]
  have "String_replace [placeholder k] (placeholder k) s = concat (map text_of (tokens s))"
    by (simp add: String_replace_def) (metis text_of.simps(2))
  then show ?thesis
    using untokens_tokens[of s] by (simp add: untokens_def)
qed

lemma subst_Cons:
  "subst k e (t # ts) = (if t = Span k then map Ch e else [t]) @ subst k e ts"
  by (simp add: subst_def)

lemma subst_Nil [simp]: "subst k e [] = []"
  by (simp add: subst_def)

lemma subst_chars:
  "\<forall>t\<in>set ts. \<exists>d. t = Ch d \<and> \<not> brace d \<Longrightarrow> subst k e ts = ts"
  by (induction ts) (auto simp: subst_Cons)

lemma settled_subst:
  assumes e: "\<forall>c\<in>set e. \<not> brace c"
  shows "settled ts \<Longrightarrow> settled (subst k e ts)"
proof (induction ts rule: settled.induct)
  case 1
  then show ?case by simp
next
  case (2 m ts)
  then show ?case
    using e by (simp add: subst_Cons settled_chars)
next
  case (3 c ts)
  then show ?case
    by (auto simp: subst_Cons subst_chars)
qed

lemma Span_in_subst:
  "Span n \<in> set (subst k e ts) \<longleftrightarrow> Span n \<in> set ts \<and> n \<noteq> k"
  by (induction ts) (auto simp: subst_Cons)

lemma Span_in_untokens: "Span n \<in> set ts \<Longrightarrow> sublist (placeholder n) (untokens ts)"
proof -
  assume "Span n \<in> set ts"
  then obtain as bs where "ts = as @ Span n # bs"
    by (auto simp: in_set_conv_decomp)
  then have "untokens ts = untokens as @ placeholder n @ untokens bs"
    by simp
  then show ?thesis
    unfolding sublist_def by blast
qed

lemma open_behind:
  assumes "CHR ''{'' \<notin> set v" "a @ CHR ''{'' # x = v @ y"
  shows "\<exists>a'. a = v @ a' \<and> y = a' @ CHR ''{'' # x"
  using assms
  by (auto simp: append_eq_append_conv2 Cons_eq_append_conv)

lemma Span_in_tokens:
  assumes n: "\<forall>c\<in>set n. \<not> brace c"
  shows "sublist (placeholder n) s \<Longrightarrow> Span n \<in> set (tokens s)"
proof (induction s rule: tokens.induct)
  case 1
  then show ?case by (simp add: placeholder_def)
next
  case (2 c cs)
  from "2.prems" obtain a b where ab: "c # cs = a @ placeholder n @ b"
    by (auto simp: sublist_def)
  show ?case
  proof (cases a)
    case Nil
    with ab have "prefix (placeholder n) (c # cs)"
      by (simp add: prefix_def)
    with n have "span_here (c # cs) = Some (n, drop (length (placeholder n)) (c # cs))"
      by (rule prefix_placeholder_span)
    then show ?thesis by simp
  next
    case (Cons c' a')
    with ab have c': "c' = c" and cs: "cs = a' @ placeholder n @ b"
      by simp_all
    show ?thesis
    proof (cases "span_here (c # cs)")
      case None
      from cs have "sublist (placeholder n) cs"
        by (auto simp: sublist_def)
      with "2.IH"(1)[OF None] None show ?thesis by simp
    next
      case (Some p)
      obtain m rest where p: "p = (m, rest)" by (cases p)
      from Some p have eq: "c # cs = placeholder m @ rest" and m: "\<forall>c\<in>set m. \<not> brace c"
        by (simp_all add: span_here_iff)
      from eq cs have "a' @ CHR ''{'' # (n @ ''}'' @ b) = (m @ ''}'') @ rest"
        by (simp add: placeholder_def)
      moreover from m have "CHR ''{'' \<notin> set (m @ ''}'')"
        by (auto simp: brace_def)
      ultimately obtain a'' where "rest = a'' @ CHR ''{'' # (n @ ''}'' @ b)"
        using open_behind by blast
      then have "sublist (placeholder n) rest"
        by (auto simp: sublist_def placeholder_def)
      with "2.IH"(2)[OF Some p[symmetric]] Some p show ?thesis by simp
    qed
  qed
qed

subsection \<open>The loop over the entries\<close>

text \<open>
  A literal key gives the regular expression whose only alternative is its placeholder,
  and the inserted value of a plain value is plain. So each round of the loop fills the
  spans of one key, and the rounds together fill every span once.
\<close>

lemma split_bar_no_bar: "CHR ''|'' \<notin> set s \<Longrightarrow> split_bar s = [s]"
  by (induction s) auto

lemma SyntaxCharacter_simps:
  "SyntaxCharacter (CHR ''{'')" "SyntaxCharacter (CHR ''}'')" "SyntaxCharacter (CHR ''$'')"
  "SyntaxCharacter (CHR ''|'')"
  by (simp_all add: SyntaxCharacter_def)

lemma literal_key_chars:
  assumes "literal_key k"
  shows "\<forall>c\<in>set k. \<not> brace c" "CHR ''$'' \<notin> set k" "CHR ''|'' \<notin> set k"
proof -
  from assms have *: "\<forall>c\<in>set k. \<not> SyntaxCharacter c"
    by (simp add: literal_key_def list_all_iff)
  then show "\<forall>c\<in>set k. \<not> brace c"
    using SyntaxCharacter_simps by (auto simp: brace_def)
  from * show "CHR ''$'' \<notin> set k"
    using SyntaxCharacter_simps by blast
  from * show "CHR ''|'' \<notin> set k"
    using SyntaxCharacter_simps by blast
qed

lemma new_RegExp_literal:
  assumes "literal_key k"
  shows "new_RegExp_braced k = Returned [placeholder k]"
proof -
  from literal_key_chars(3)[OF assms] have "CHR ''|'' \<notin> set (placeholder k)"
    by (simp add: placeholder_def)
  then have "split_bar (placeholder k) = [placeholder k]"
    by (rule split_bar_no_bar)
  moreover have "placeholder k \<noteq> []"
    by (simp add: placeholder_def)
  moreover from assms have "list_all (\<lambda>c. c = CHR ''|'' \<or> \<not> SyntaxCharacter c) k"
    by (auto simp: literal_key_def list_all_iff)
  ultimately show ?thesis
    by (simp add: new_RegExp_braced_def)
qed

lemma list_all_String_replace_char:
  "CHR ''$'' \<notin> set t \<Longrightarrow> list_all P s \<Longrightarrow> list_all P t \<Longrightarrow> list_all P (String_replace [[c]] t s)"
  by (induction s) (simp_all add: String_replace_char)

lemma plain_value_safeValue:
  assumes "plain_value v" "v \<noteq> []"
  shows "plain_value (safeValue k v)"
proof -
  let ?P = "\<lambda>c. c \<noteq> CHR ''{'' \<and> c \<noteq> CHR ''}'' \<and> c \<noteq> CHR ''$''"
  let ?a = "String_replace [''&''] ''&amp;'' v"
  let ?b = "String_replace [''<''] ''&lt;'' ?a"
  let ?c = "String_replace [''>''] ''&gt;'' ?b"
  from assms(1) have "list_all ?P v"
    by (simp add: plain_value_def)
  then have "list_all ?P ?a"
    by (rule list_all_String_replace_char[rotated]) simp_all
  then have "list_all ?P ?b"
    by (rule list_all_String_replace_char[rotated]) simp_all
  then have "list_all ?P ?c"
    by (rule list_all_String_replace_char[rotated]) simp_all
  with assms(2) show ?thesis
    by (simp add: safeValue_def plain_value_def)
qed

lemma plain_value_chars:
  assumes "plain_value e"
  shows "\<forall>c\<in>set e. \<not> brace c" "CHR ''$'' \<notin> set e"
  using assms by (auto simp: plain_value_def list_all_iff brace_def)

lemma safeValue_chars:
  assumes "plain_value v" "v \<noteq> []"
  shows "\<forall>c\<in>set (safeValue k v). \<not> brace c" "CHR ''$'' \<notin> set (safeValue k v)"
  using plain_value_chars[OF plain_value_safeValue[OF assms]] by simp_all

lemma String_replace_fill:
  assumes "literal_key k" "plain_value v" "settled ts"
  shows "String_replace [placeholder k] (safeValue k v) (untokens ts) = untokens (fill ts (k, v))"
    and "settled (fill ts (k, v))"
proof -
  note kc = literal_key_chars[OF assms(1)]
  show "String_replace [placeholder k] (safeValue k v) (untokens ts) = untokens (fill ts (k, v))"
  proof (cases "v = []")
    case True
    then show ?thesis
      by (simp add: fill_def safeValue_def String_replace_same[OF kc(1,2)])
  next
    case False
    from safeValue_chars(2)[OF assms(2) False]
    have "String_replace [placeholder k] (safeValue k v) (untokens ts)
        = untokens (subst k (safeValue k v) (tokens (untokens ts)))"
      by (rule String_replace_subst[OF kc(1)])
    with False assms(3) show ?thesis
      by (simp add: fill_def tokens_untokens)
  qed
  show "settled (fill ts (k, v))"
    using assms(3) safeValue_chars(1)[OF assms(2)]
    by (auto simp: fill_def intro: settled_subst)
qed

lemma loop_tokens:
  assumes "\<forall>(k, v)\<in>set entries. literal_key k \<and> plain_value v" "settled ts"
  shows "replaceVariables_loop (untokens ts) entries = Returned (untokens (foldl fill ts entries))
     \<and> settled (foldl fill ts entries)"
  using assms
proof (induction entries arbitrary: ts)
  case Nil
  then show ?case by simp
next
  case (Cons e entries)
  obtain k v where e: "e = (k, v)" by (cases e)
  with Cons.prems have kv: "literal_key k" "plain_value v"
    and rest: "\<forall>(k, v)\<in>set entries. literal_key k \<and> plain_value v"
    by auto
  note step = String_replace_fill[OF kv Cons.prems(2)]
  from Cons.IH[OF rest step(2)] step(1) e show ?case
    by (simp add: new_RegExp_literal[OF kv(1)])
qed

lemma Span_foldl_fill_subset:
  "Span n \<in> set (foldl fill ts entries) \<Longrightarrow> Span n \<in> set ts"
proof (induction entries arbitrary: ts)
  case Nil
  then show ?case by simp
next
  case (Cons e entries)
  then have "Span n \<in> set (fill ts e)" by simp
  then show ?case
    by (auto simp: fill_def Span_in_subst split: if_splits)
qed

lemma Span_foldl_fill_gone:
  "(k, v) \<in> set entries \<Longrightarrow> v \<noteq> [] \<Longrightarrow> Span k \<notin> set (foldl fill ts entries)"
proof (induction entries arbitrary: ts)
  case Nil
  then show ?case by simp
next
  case (Cons e entries)
  show ?case
  proof (cases "e = (k, v)")
    case True
    with Cons.prems have "Span k \<notin> set (fill ts e)"
      by (simp add: fill_def Span_in_subst)
    then show ?thesis
      using Span_foldl_fill_subset[of k "fill ts e" entries] by auto
  next
    case False
    with Cons show ?thesis by auto
  qed
qed

lemma Span_foldl_fill_kept:
  "Span n \<in> set ts \<Longrightarrow> \<forall>(k, v)\<in>set entries. k = n \<longrightarrow> v = [] \<Longrightarrow>
   Span n \<in> set (foldl fill ts entries)"
proof (induction entries arbitrary: ts)
  case Nil
  then show ?case by simp
next
  case (Cons e entries)
  then have "Span n \<in> set (fill ts e)"
    by (cases e) (auto simp: fill_def Span_in_subst)
  with Cons show ?case by auto
qed

lemma subst_absent: "Span k \<notin> set ts \<Longrightarrow> subst k e ts = ts"
  by (induction ts) (auto simp: subst_Cons)

lemma foldl_fill_done:
  "\<forall>(k, v)\<in>set entries. v \<noteq> [] \<longrightarrow> Span k \<notin> set ts \<Longrightarrow> foldl fill ts entries = ts"
proof (induction entries)
  case Nil
  then show ?case by simp
next
  case (Cons e entries)
  then have "fill ts e = ts"
    by (cases e) (auto simp: fill_def subst_absent)
  with Cons show ?case by auto
qed

lemma unnested_from_nested:
  "\<forall>c\<in>set u. \<not> brace c \<Longrightarrow> \<not> unnested_from opn (a @ CHR ''{'' # u @ CHR ''{'' # r)"
  by (induction a arbitrary: opn) (auto simp: unnested_from_no_brace)

lemma unnested_name:
  assumes "unnested s" "sublist (placeholder n) s" "CHR ''}'' \<notin> set n"
  shows "\<forall>c\<in>set n. \<not> brace c"
proof -
  have "CHR ''{'' \<notin> set n"
  proof
    assume "CHR ''{'' \<in> set n"
    then obtain u r where n: "n = u @ CHR ''{'' # r" and u: "CHR ''{'' \<notin> set u"
      by (auto dest: split_list_first)
    from assms(2) obtain a b where "s = a @ placeholder n @ b"
      by (auto simp: sublist_def)
    with n have "s = a @ CHR ''{'' # u @ CHR ''{'' # (r @ ''}'' @ b)"
      by (simp add: placeholder_def)
    moreover from u n assms(3) have "\<forall>c\<in>set u. \<not> brace c"
      by (auto simp: brace_def)
    ultimately show False
      using assms(1) unnested_from_nested[of u False a] by (simp add: unnested_def)
  qed
  with assms(3) show ?thesis
    by (auto simp: brace_def)
qed

lemma replaceVariables_tokens:
  assumes "unnested content" "\<forall>(k, v)\<in>set variables. literal_key k \<and> plain_value v"
  shows "replaceVariables content variables
       = Returned (untokens (foldl fill (tokens content) variables))"
    and "settled (foldl fill (tokens content) variables)"
  using loop_tokens[OF assms(2) settled_tokens[OF assms(1)]]
  by (simp_all add: replaceVariables_def untokens_tokens)


lemma untokens_map_Ch [simp]: "untokens (map Ch e) = e"
  by (induction e) auto

lemma filled_chars [simp]: "concat (map (filled vs \<circ> Ch) e) = e"
  by (induction e) auto

lemma fill_alt:
  "fill ts (k, v) = concat (map (\<lambda>t. if t = Span k \<and> v \<noteq> [] then map Ch (safeValue k v) else [t]) ts)"
  by (induction ts) (auto simp: fill_def subst_Cons)

lemma untokens_foldl_fill:
  "distinct (map fst entries) \<Longrightarrow>
   untokens (foldl fill ts entries) = concat (map (filled entries) ts)"
proof (induction entries arbitrary: ts)
  case Nil
  have "filled [] t = text_of t" for t
    by (cases t) auto
  then show ?case
    by (simp add: untokens_def)
next
  case (Cons e entries)
  obtain k v where e: "e = (k, v)" by (cases e)
  from Cons.prems e have d: "distinct (map fst entries)" and k: "map_of entries k = None"
    by (auto simp: map_of_eq_None_iff)
  have "concat (map (filled entries) (if t = Span k \<and> v \<noteq> [] then map Ch (safeValue k v) else [t]))
      = filled ((k, v) # entries) t" for t
  proof (cases "t = Span k \<and> v \<noteq> []")
    case True
    then show ?thesis by simp
  next
    case False
    have "safeValue k [] = placeholder k"
      by (simp add: safeValue_def)
    with False k show ?thesis
      by (cases t) auto
  qed
  then have "concat (map (filled entries) (fill ts (k, v))) = concat (map (filled ((k, v) # entries)) ts)"
    by (simp add: fill_alt concat_map_concat_map)
  with Cons.IH[OF d, of "fill ts (k, v)"] e show ?case
    by simp
qed


subsection \<open>The inserted value and the scenarios\<close>

text \<open>
  The three replacements of \<^const>\<open>safeValue\<close>, the ampersand first, amount to one pass
  that turns each of the three characters into its entity: no entity is escaped twice.
\<close>

lemma safeValue_escape: "v \<noteq> [] \<Longrightarrow> safeValue k v = concat (map html_entity v)"
proof -
  have "String_replace [''>''] ''&gt;'' (String_replace [''<''] ''&lt;'' (String_replace [''&''] ''&amp;'' v))
      = concat (map html_entity v)"
    by (induction v) (simp_all add: String_replace_char html_entity_def)
  then show "v \<noteq> [] \<Longrightarrow> safeValue k v = concat (map html_entity v)"
    by (simp add: safeValue_def)
qed

lemma replaceVariables_literal_returns:
  "\<forall>(k, v)\<in>set variables. literal_key k \<Longrightarrow> \<exists>r. replaceVariables content variables = Returned r"
  unfolding replaceVariables_def
  by (induction variables arbitrary: content) (auto simp: new_RegExp_literal)

lemma replaceVariables_scenario_name:
  "replaceVariables ''Hello {name}, your due date is {due_date}.'' [(''name'', ''Anna'')]
     = Returned ''Hello Anna, your due date is {due_date}.''"
  by (simp add: replaceVariables_def new_RegExp_braced_def SyntaxCharacter_def placeholder_def
      safeValue_def String_replace_def match_here_def)

lemma replaceVariables_scenario_script:
  "replaceVariables ''<b>{x}</b> & friends'' [(''x'', ''<script>'')]
     = Returned ''<b>&lt;script&gt;</b> & friends''"
  by (simp add: replaceVariables_def new_RegExp_braced_def SyntaxCharacter_def placeholder_def
      safeValue_def String_replace_def match_here_def)

subsection \<open>The claims about replaceVariables\<close>

text \<open>
  Claim C1, as the code has it. Let the content be unnested, let no key hold a syntax
  character of the pattern grammar, let no value hold a brace or a dollar sign, and let
  the keys be distinct, as the keys of an object are. Then the call returns the content
  with every span whose name is a key replaced by the inserted value of that key; the
  result holds no \<^verbatim>\<open>{name}\<close> for any key with a non-empty value; and it still holds
  \<^verbatim>\<open>{name}\<close> for every placeholder name of the content that is no key or has the
  empty value.
\<close>

theorem replaceVariables_fills:
  assumes "unnested content"
    and "\<forall>(k, v)\<in>set variables. literal_key k \<and> plain_value v"
    and "distinct (map fst variables)"
  shows "\<exists>r. replaceVariables content variables = Returned r
     \<and> r = concat (map (filled variables) (tokens content))
     \<and> (\<forall>(k, v)\<in>set variables. v \<noteq> [] \<longrightarrow> \<not> sublist (placeholder k) r)
     \<and> (\<forall>n\<in>set (extractVariables content).
          map_of variables n = None \<or> map_of variables n = Some [] \<longrightarrow> sublist (placeholder n) r)"
proof -
  let ?ts = "foldl fill (tokens content) variables"
  note r = replaceVariables_tokens[OF assms(1,2)]
  have gone: "\<not> sublist (placeholder k) (untokens ?ts)" if "(k, v) \<in> set variables" "v \<noteq> []" for k v
  proof
    assume "sublist (placeholder k) (untokens ?ts)"
    moreover from that(1) assms(2) have "literal_key k"
      by auto
    then have "\<forall>c\<in>set k. \<not> brace c"
      by (rule literal_key_chars(1))
    ultimately have "Span k \<in> set (tokens (untokens ?ts))"
      by (rule Span_in_tokens[rotated])
    with r(2) have "Span k \<in> set ?ts"
      by (simp add: tokens_untokens)
    with Span_foldl_fill_gone[OF that] show False by simp
  qed
  have kept: "sublist (placeholder n) (untokens ?ts)"
    if n: "n \<in> set (extractVariables content)"
      and m: "map_of variables n = None \<or> map_of variables n = Some []" for n
  proof -
    from extractVariables_shape[OF n] have "CHR ''}'' \<notin> set n" "sublist (placeholder n) content"
      by simp_all
    with assms(1) have "\<forall>c\<in>set n. \<not> brace c" "sublist (placeholder n) content"
      by (auto dest: unnested_name)
    then have "Span n \<in> set (tokens content)"
      by (rule Span_in_tokens)
    moreover have "\<forall>(k, v)\<in>set variables. k = n \<longrightarrow> v = []"
    proof (clarify)
      fix v assume "(n, v) \<in> set variables"
      with assms(3) have "map_of variables n = Some v"
        by (rule map_of_is_SomeI)
      with m show "v = []" by auto
    qed
    ultimately have "Span n \<in> set ?ts"
      by (rule Span_foldl_fill_kept)
    then show ?thesis
      by (rule Span_in_untokens)
  qed
  have "untokens ?ts = concat (map (filled variables) (tokens content))"
    using assms(3) by (rule untokens_foldl_fill)
  with r(1) gone kept show ?thesis
    by auto
qed

theorem replaceVariables_fills_witness:
  "replaceVariables ''Hello {name}, your due date is {due_date}.'' [(''name'', ''Anna'')]
     = Returned ''Hello Anna, your due date is {due_date}.''
   \<and> \<not> sublist (placeholder ''name'') ''Hello Anna, your due date is {due_date}.''
   \<and> sublist (placeholder ''due_date'') ''Hello Anna, your due date is {due_date}.''"
proof -
  let ?c = "''Hello {name}, your due date is {due_date}.''"
  let ?v = "[(''name'', ''Anna'')]"
  let ?r = "''Hello Anna, your due date is {due_date}.''"
  have h1: "unnested ?c"
    by (simp add: unnested_def)
  have h2: "\<forall>(k, v)\<in>set ?v. literal_key k \<and> plain_value v"
    by (simp add: literal_key_def plain_value_def SyntaxCharacter_def)
  have h3: "distinct (map fst ?v)"
    by simp
  have e: "replaceVariables ?c ?v = Returned ?r"
    by (rule replaceVariables_scenario_name)
  from replaceVariables_fills[OF h1 h2 h3] e
  have gone: "\<forall>(k, v)\<in>set ?v. v \<noteq> [] \<longrightarrow> \<not> sublist (placeholder k) ?r"
    and kept: "\<forall>n\<in>set (extractVariables ?c).
         map_of ?v n = None \<or> map_of ?v n = Some [] \<longrightarrow> sublist (placeholder n) ?r"
    by auto
  from gone have "\<not> sublist (placeholder ''name'') ?r"
    by simp
  moreover have "''due_date'' \<in> set (extractVariables ?c)"
    by (simp add: extractVariables_scenario)
  with kept have "map_of ?v ''due_date'' = None \<longrightarrow> sublist (placeholder ''due_date'') ?r"
    by blast
  then have "sublist (placeholder ''due_date'') ?r"
    by simp
  ultimately show ?thesis
    using e by blast
qed

text \<open>
  The claim as stated fails. A value may hold the placeholder of its own key: with the
  value \<^verbatim>\<open>{x}\<close> for the key \<^verbatim>\<open>x\<close> the result of filling \<^verbatim>\<open>{x}\<close> holds
  \<^verbatim>\<open>{x}\<close>. And filling may close braces of the content around the value: the content
  \<^verbatim>\<open>{{y}}\<close> with the value \<^verbatim>\<open>y\<close> for the key \<^verbatim>\<open>y\<close> becomes \<^verbatim>\<open>{y}\<close>.
\<close>

theorem replaceVariables_fills_counterexample:
  "replaceVariables ''{x}'' [(''x'', ''{x}'')] = Returned ''{x}''
   \<and> sublist (placeholder ''x'') ''{x}''
   \<and> replaceVariables ''{{y}}'' [(''y'', ''y'')] = Returned ''{y}''
   \<and> sublist (placeholder ''y'') ''{y}''"
  by (simp add: replaceVariables_def new_RegExp_braced_def SyntaxCharacter_def placeholder_def
      safeValue_def String_replace_def match_here_def)

text \<open>
  Claim C3, as the code has it. Let the content be unnested, let no key hold a syntax
  character of the pattern grammar, and let no value hold a brace or a dollar sign. Then
  the call returns, and the call on its result with the same map returns that result.
\<close>

theorem replaceVariables_idempotent:
  assumes "unnested content"
    and "\<forall>(k, v)\<in>set variables. literal_key k \<and> plain_value v"
  shows "\<exists>r. replaceVariables content variables = Returned r
     \<and> replaceVariables r variables = Returned r"
proof -
  let ?ts = "foldl fill (tokens content) variables"
  note r = replaceVariables_tokens[OF assms]
  have "\<forall>(k, v)\<in>set variables. v \<noteq> [] \<longrightarrow> Span k \<notin> set ?ts"
    by (auto dest: Span_foldl_fill_gone)
  then have "foldl fill ?ts variables = ?ts"
    by (rule foldl_fill_done)
  with loop_tokens[OF assms(2) r(2)] have "replaceVariables (untokens ?ts) variables = Returned (untokens ?ts)"
    by (simp add: replaceVariables_def)
  with r(1) show ?thesis by simp
qed

theorem replaceVariables_idempotent_witness:
  "replaceVariables ''<b>{x}</b> & friends'' [(''x'', ''<script>'')]
     = Returned ''<b>&lt;script&gt;</b> & friends''
   \<and> replaceVariables ''<b>&lt;script&gt;</b> & friends'' [(''x'', ''<script>'')]
     = Returned ''<b>&lt;script&gt;</b> & friends''"
proof -
  let ?c = "''<b>{x}</b> & friends''"
  let ?v = "[(''x'', ''<script>'')]"
  have h1: "unnested ?c"
    by (simp add: unnested_def)
  have h2: "\<forall>(k, v)\<in>set ?v. literal_key k \<and> plain_value v"
    by (simp add: literal_key_def plain_value_def SyntaxCharacter_def)
  from replaceVariables_idempotent[OF h1 h2] replaceVariables_scenario_script
  show ?thesis by auto
qed

text \<open>
  The claim as stated fails, with a value that holds no brace: filling \<^verbatim>\<open>{{x}}\<close>
  with the value \<^verbatim>\<open>x\<close> for the key \<^verbatim>\<open>x\<close> gives \<^verbatim>\<open>{x}\<close>, and filling
  that again gives \<^verbatim>\<open>x\<close>.
\<close>

theorem replaceVariables_idempotent_counterexample:
  "replaceVariables ''{{x}}'' [(''x'', ''x'')] = Returned ''{x}''
   \<and> replaceVariables ''{x}'' [(''x'', ''x'')] = Returned ''x''"
  by (simp add: replaceVariables_def new_RegExp_braced_def SyntaxCharacter_def placeholder_def
      safeValue_def String_replace_def match_here_def)

text \<open>
  Claim C2, at an input where the code leaves it. The key is read as a pattern, so the
  key \<^verbatim>\<open>x|<b>|y\<close> stands for three alternatives, the second of which is the tag
  \<^verbatim>\<open><b>\<close>: the opening tag of the template is replaced by the value.
\<close>

theorem replaceVariables_replaces_template_tag:
  "replaceVariables ''<b>hi</b>'' [(''x|<b>|y'', ''v'')] = Returned ''vhi</b>''"
  by (simp add: replaceVariables_def new_RegExp_braced_def SyntaxCharacter_def placeholder_def
      safeValue_def String_replace_def match_here_def)

text \<open>
  Claim C6, at an input where the code leaves it. The key \<^verbatim>\<open>a(\<close>, the name of the
  placeholder \<^verbatim>\<open>{a(}\<close>, opens a group that nothing closes: building the regular
  expression throws a \<^verbatim>\<open>SyntaxError\<close>, and so does the call.
\<close>

theorem replaceVariables_throws_SyntaxError:
  "extractVariables ''{a(}'' = [''a('']
   \<and> replaceVariables ''{a(}'' [(''a('', ''x'')] = Thrown SyntaxError"
  by (simp add: replaceVariables_def new_RegExp_braced_def SyntaxCharacter_def
      extractVariables_def variable_here_def new_Set_def Set_add_def placeholder_def slice_1_m1_def)

end
